theory Spec2Isabelle
  imports Main "HOL-Library.Word"
begin

unbundle bit_operations_syntax

section \<open>Bare-metal firmware: memory-mapped registers and their observation\<close>

text \<open>
  The firmware (\<^verbatim>\<open>src/fpga/firmware/main.c\<close>) talks to three volatile registers:
  \<^verbatim>\<open>GPIO_LED\<close> (write), \<^verbatim>\<open>UART_TX\<close> (write) and \<^verbatim>\<open>UART_STATUS\<close> (read).
  Every volatile access is an observable event. The hardware's answers to the reads
  of \<^verbatim>\<open>UART_STATUS\<close> are an input of the program: a stream \<open>st\<close>, whose \<open>k\<close>-th
  element is the word returned by the \<open>k\<close>-th read.
\<close>

type_synonym u8 = "8 word"
type_synonym u32 = "32 word"

datatype event =
    RdStatus u32    \<comment> \<open>a read of \<^verbatim>\<open>UART_STATUS\<close> and the word it returned\<close>
  | WrTx u32        \<comment> \<open>a write to \<^verbatim>\<open>UART_TX\<close>\<close>
  | WrLed u32       \<comment> \<open>a write to \<^verbatim>\<open>GPIO_LED\<close>\<close>

text \<open>
  The machine state as far as it can be observed: how many status reads were made,
  the register accesses in the order they happened, and two instrumentation counters
  for the delay loop (evaluations of \<^verbatim>\<open>count--\<close>, and runs of the empty loop body).
\<close>

record machine =
  nreads :: nat
  trace :: "event list"
  decs :: nat
  spins :: nat

definition init_machine :: machine where
  "init_machine = \<lparr>nreads = 0, trace = [], decs = 0, spins = 0\<rparr>"

definition read_status :: "(nat \<Rightarrow> u32) \<Rightarrow> machine \<Rightarrow> u32 \<times> machine" where
  "read_status st s =
     (st (nreads s),
      s\<lparr>nreads := Suc (nreads s), trace := trace s @ [RdStatus (st (nreads s))]\<rparr>)"

definition write_tx :: "u32 \<Rightarrow> machine \<Rightarrow> machine" where
  "write_tx v s = s\<lparr>trace := trace s @ [WrTx v]\<rparr>"

definition write_led :: "u32 \<Rightarrow> machine \<Rightarrow> machine" where
  "write_led v s = s\<lparr>trace := trace s @ [WrLed v]\<rparr>"

text \<open>The write histories of the two output registers, read off a trace.\<close>

fun tx_writes :: "event list \<Rightarrow> u32 list" where
  "tx_writes [] = []"
| "tx_writes (WrTx v # es) = v # tx_writes es"
| "tx_writes (RdStatus v # es) = tx_writes es"
| "tx_writes (WrLed v # es) = tx_writes es"

fun led_writes :: "event list \<Rightarrow> u32 list" where
  "led_writes [] = []"
| "led_writes (WrLed v # es) = v # led_writes es"
| "led_writes (RdStatus v # es) = led_writes es"
| "led_writes (WrTx v # es) = led_writes es"

definition tx_history :: "machine \<Rightarrow> u32 list" where
  "tx_history s = tx_writes (trace s)"

definition led_history :: "machine \<Rightarrow> u32 list" where
  "led_history s = led_writes (trace s)"

section \<open>\<^verbatim>\<open>uart_putc\<close>\<close>

text \<open>
  \<^verbatim>\<open>(uint32_t)c\<close> for a \<^verbatim>\<open>char c\<close>: whether plain \<^verbatim>\<open>char\<close> is signed is the
  compiler's choice, so it is a parameter \<open>sg\<close>. A signed \<^verbatim>\<open>char\<close> is sign-extended,
  an unsigned one zero-extended.
\<close>

definition u32_of_char :: "bool \<Rightarrow> u8 \<Rightarrow> u32" where
  "u32_of_char sg c = (if sg then scast c else ucast c)"

text \<open>
  \<^verbatim>\<open>while (UART_STATUS & 1) ;\<close> The loop may spin forever, so it lives in the
  option monad: \<open>None\<close> is "never leaves the loop".
\<close>

partial_function (option) uart_wait :: "(nat \<Rightarrow> u32) \<Rightarrow> machine \<Rightarrow> machine option" where
  "uart_wait st s =
     (case read_status st s of
        (v, s') \<Rightarrow> if v AND 1 \<noteq> 0 then uart_wait st s' else Some s')"

definition uart_putc :: "(nat \<Rightarrow> u32) \<Rightarrow> bool \<Rightarrow> u8 \<Rightarrow> machine \<Rightarrow> machine option" where
  "uart_putc st sg c s =
     Option.bind (uart_wait st s) (\<lambda>s'. Some (write_tx (u32_of_char sg c) s'))"

text \<open>
  The same function, observed after at most \<open>n\<close> polls of the status register: the
  state reached, and whether the call has returned.
\<close>

fun uart_putc_polls ::
  "nat \<Rightarrow> (nat \<Rightarrow> u32) \<Rightarrow> bool \<Rightarrow> u8 \<Rightarrow> machine \<Rightarrow> machine \<times> bool" where
  "uart_putc_polls 0 st sg c s = (s, False)"
| "uart_putc_polls (Suc n) st sg c s =
     (case read_status st s of
        (v, s') \<Rightarrow> if v AND 1 \<noteq> 0 then uart_putc_polls n st sg c s'
                   else (write_tx (u32_of_char sg c) s', True))"

section \<open>\<^verbatim>\<open>uart_puts\<close>\<close>

text \<open>
  \<^verbatim>\<open>while (*s) uart_putc(*s++);\<close> The argument is a pointer into byte-addressed
  memory \<open>mem\<close>; the loop runs until it reads a zero byte.
\<close>

partial_function (option) uart_puts ::
  "(nat \<Rightarrow> u32) \<Rightarrow> bool \<Rightarrow> (u32 \<Rightarrow> u8) \<Rightarrow> u32 \<Rightarrow> machine \<Rightarrow> machine option" where
  "uart_puts st sg mem p s =
     (if mem p \<noteq> 0
      then Option.bind (uart_putc st sg (mem p) s) (\<lambda>s'. uart_puts st sg mem (p + 1) s')
      else Some s)"

section \<open>\<^verbatim>\<open>delay\<close>\<close>

text \<open>
  \<^verbatim>\<open>while (count--) ;\<close> on a \<^verbatim>\<open>volatile uint32_t count\<close>. Each test of the
  condition reads \<open>count\<close>, stores \<open>count - 1\<close> (wrapping below zero) and yields the old
  value; the body is empty.
\<close>

function delay_loop :: "u32 \<Rightarrow> machine \<Rightarrow> u32 \<times> machine" where
  "delay_loop count s =
     (let old = count;
          count' = count - 1;
          s' = s\<lparr>decs := Suc (decs s)\<rparr>
      in if old \<noteq> 0 then delay_loop count' (s'\<lparr>spins := Suc (spins s')\<rparr>)
         else (count', s'))"
  by pat_completeness auto
termination
proof (relation "measure (\<lambda>(count, s). unat count)")
  show "wf (measure (\<lambda>(count, s). unat count))" by simp
next
  fix count :: u32 and s :: machine and x xa xb
  assume "x = count" "xa = count - 1" "x \<noteq> 0"
  then have "unat (count - 1) < unat count"
    by (simp add: unat_minus_one unat_gt_0)
  with \<open>xa = count - 1\<close>
  show "((xa, xb\<lparr>spins := Suc (spins xb)\<rparr>), (count, s))
          \<in> measure (\<lambda>(count, s). unat count)"
    by simp
qed

declare delay_loop.simps [simp del]

definition delay :: "u32 \<Rightarrow> machine \<Rightarrow> machine" where
  "delay count s = snd (delay_loop count s)"

section \<open>\<^verbatim>\<open>main\<close>\<close>

text \<open>
  The string literal \<^verbatim>\<open>"Hello, Arty A7!\r\n"\<close>: its characters, and the array (with
  the terminating zero byte) placed at address \<open>lit\<close> of a memory \<open>mem\<close>.
\<close>

definition greeting :: "u8 list" where
  "greeting = map of_char (''Hello, Arty A7!'' @ [CHR 0x0D, CHR 0x0A])"

definition place_literal :: "(u32 \<Rightarrow> u8) \<Rightarrow> u32 \<Rightarrow> u8 list \<Rightarrow> (u32 \<Rightarrow> u8)" where
  "place_literal mem lit bs =
     (\<lambda>a. if unat (a - lit) \<le> length bs then (bs @ [0]) ! unat (a - lit) else mem a)"

text \<open>Startup: \<^verbatim>\<open>uart_puts("Hello, Arty A7!\r\n");\<close>\<close>

definition main_startup ::
  "(nat \<Rightarrow> u32) \<Rightarrow> bool \<Rightarrow> (u32 \<Rightarrow> u8) \<Rightarrow> u32 \<Rightarrow> machine option" where
  "main_startup st sg mem lit =
     uart_puts st sg (place_literal mem lit greeting) lit init_machine"

text \<open>
  One run of the body of \<^verbatim>\<open>while (1)\<close>:
  \<^verbatim>\<open>GPIO_LED = pattern & 0x0F; pattern++; delay(5000000);\<close>
  \<open>pattern\<close> is a \<^verbatim>\<open>uint8_t\<close>; it is promoted for the mask and the result is stored
  as a 32-bit word.
\<close>

definition main_body :: "u8 \<times> machine \<Rightarrow> u8 \<times> machine" where
  "main_body ps =
     (case ps of (pattern, s) \<Rightarrow>
        let s1 = write_led (ucast pattern AND 0x0F) s;
            pattern' = pattern + 1;
            s2 = delay 5000000 s1
        in (pattern', s2))"

text \<open>
  The loop never exits; \<open>main_loop n\<close> is the state after \<open>n\<close> runs of its body, and
  \<open>main_run n\<close> the state of \<^verbatim>\<open>main\<close> at that point, with \<^verbatim>\<open>pattern = 0\<close> on entry
  to the loop (\<open>None\<close> when the startup never gets there).
\<close>

fun main_loop :: "nat \<Rightarrow> u8 \<times> machine \<Rightarrow> u8 \<times> machine" where
  "main_loop 0 ps = ps"
| "main_loop (Suc n) ps = main_loop n (main_body ps)"

definition main_run ::
  "(nat \<Rightarrow> u32) \<Rightarrow> bool \<Rightarrow> (u32 \<Rightarrow> u8) \<Rightarrow> u32 \<Rightarrow> nat \<Rightarrow> (u8 \<times> machine) option" where
  "main_run st sg mem lit n =
     map_option (\<lambda>s. main_loop n (0, s)) (main_startup st sg mem lit)"


section \<open>Auxiliary notions for stating the properties\<close>

text \<open>The state after \<open>k\<close> further reads of the status register and nothing else.\<close>

definition polled :: "(nat \<Rightarrow> u32) \<Rightarrow> machine \<Rightarrow> nat \<Rightarrow> machine" where
  "polled st s k =
     s\<lparr>nreads := nreads s + k,
       trace := trace s @ map (\<lambda>i. RdStatus (st i)) [nreads s ..< nreads s + k]\<rparr>"

text \<open>
  \<open>guarded seen es\<close>: in the events \<open>es\<close>, every write to \<^verbatim>\<open>UART_TX\<close> comes after a
  read of \<^verbatim>\<open>UART_STATUS\<close> that returned bit 0 clear, made since the write before it;
  \<open>seen\<close> says whether such a read has already happened when \<open>es\<close> starts.
\<close>

fun guarded :: "bool \<Rightarrow> event list \<Rightarrow> bool" where
  "guarded seen [] = True"
| "guarded seen (RdStatus v # es) = guarded (seen \<or> v AND 1 = 0) es"
| "guarded seen (WrTx v # es) = (seen \<and> guarded False es)"
| "guarded seen (WrLed v # es) = guarded seen es"

text \<open>
  \<open>cstr_at mem p bs\<close>: the memory holds, from address \<open>p\<close> on, the non-zero bytes \<open>bs\<close>
  and then a zero byte (a C string).
\<close>

fun cstr_at :: "(u32 \<Rightarrow> u8) \<Rightarrow> u32 \<Rightarrow> u8 list \<Rightarrow> bool" where
  "cstr_at mem p [] = (mem p = 0)"
| "cstr_at mem p (b # bs) = (b \<noteq> 0 \<and> mem p = b \<and> cstr_at mem (p + 1) bs)"

text \<open>\<^verbatim>\<open>uart_putc\<close> called on each byte of a list in turn.\<close>

fun putc_list :: "(nat \<Rightarrow> u32) \<Rightarrow> bool \<Rightarrow> u8 list \<Rightarrow> machine \<Rightarrow> machine option" where
  "putc_list st sg [] s = Some s"
| "putc_list st sg (b # bs) s = Option.bind (uart_putc st sg b s) (putc_list st sg bs)"

text \<open>A status register that always reads idle, one that always reads busy, and a
  memory of zero bytes.\<close>

definition idle_status :: "nat \<Rightarrow> u32" where
  "idle_status i = 0"

definition busy_status :: "nat \<Rightarrow> u32" where
  "busy_status i = 1"

definition zero_mem :: "u32 \<Rightarrow> u8" where
  "zero_mem a = 0"

text \<open>
  What an observer of \<^verbatim>\<open>main\<close> sees after \<open>n\<close> runs of the loop body: the LED write
  history, the UART write history and the counter. A value written to the LED register
  is in range when it is at most 15, that is when its bits 31 to 4 are zero.
\<close>

definition led_history_after ::
  "(nat \<Rightarrow> u32) \<Rightarrow> bool \<Rightarrow> (u32 \<Rightarrow> u8) \<Rightarrow> u32 \<Rightarrow> nat \<Rightarrow> u32 list option" where
  "led_history_after st sg mem lit n =
     map_option (\<lambda>ps. led_history (snd ps)) (main_run st sg mem lit n)"

definition tx_history_after ::
  "(nat \<Rightarrow> u32) \<Rightarrow> bool \<Rightarrow> (u32 \<Rightarrow> u8) \<Rightarrow> u32 \<Rightarrow> nat \<Rightarrow> u32 list option" where
  "tx_history_after st sg mem lit n =
     map_option (\<lambda>ps. tx_history (snd ps)) (main_run st sg mem lit n)"

definition pattern_after ::
  "(nat \<Rightarrow> u32) \<Rightarrow> bool \<Rightarrow> (u32 \<Rightarrow> u8) \<Rightarrow> u32 \<Rightarrow> nat \<Rightarrow> u8 option" where
  "pattern_after st sg mem lit n = map_option fst (main_run st sg mem lit n)"

definition led_in_range :: "u32 \<Rightarrow> bool" where
  "led_in_range v = (v \<le> 15 \<and> v AND 0xFFFFFFF0 = 0)"

text \<open>The number of bytes written to \<^verbatim>\<open>UART_TX\<close> so far, and the last bytes written
  from the sixteenth on.\<close>

definition tx_count :: "machine \<Rightarrow> nat" where
  "tx_count s = length (tx_history s)"

definition tx_from_16th :: "machine \<Rightarrow> u32 list" where
  "tx_from_16th s = drop 15 (tx_history s)"

text \<open>A status register that reads busy \<open>k\<close> times and idle from then on.\<close>

definition busy_then_idle :: "nat \<Rightarrow> nat \<Rightarrow> u32" where
  "busy_then_idle k i = (if i < k then 1 else 0)"

section \<open>Traces and the wait loop\<close>

lemma tx_writes_append: "tx_writes (xs @ ys) = tx_writes xs @ tx_writes ys"
  by (induction xs rule: tx_writes.induct) simp_all

lemma led_writes_append: "led_writes (xs @ ys) = led_writes xs @ led_writes ys"
  by (induction xs rule: led_writes.induct) simp_all

lemma tx_writes_reads: "tx_writes (map (\<lambda>i. RdStatus (f i)) ns) = []"
  by (induction ns) simp_all

lemma led_writes_reads: "led_writes (map (\<lambda>i. RdStatus (f i)) ns) = []"
  by (induction ns) simp_all

lemma polled_0: "polled st s 0 = s"
  by (simp add: polled_def)

lemma polled_Suc: "polled st (snd (read_status st s)) k = polled st s (Suc k)"
  by (simp add: polled_def read_status_def upt_conv_Cons del: upt_Suc)

lemma read_status_fst: "fst (read_status st s) = st (nreads s)"
  by (simp add: read_status_def)

lemma nreads_read_status: "nreads (snd (read_status st s)) = Suc (nreads s)"
  by (simp add: read_status_def)

lemma uart_wait_unfold:
  "uart_wait st s =
     (if st (nreads s) AND 1 \<noteq> 0 then uart_wait st (snd (read_status st s))
      else Some (snd (read_status st s)))"
  by (subst uart_wait.simps) (simp add: read_status_def)

lemma uart_wait_idle_at:
  "(\<And>i. i < k \<Longrightarrow> st (nreads s + i) AND 1 \<noteq> 0) \<Longrightarrow> st (nreads s + k) AND 1 = 0
   \<Longrightarrow> uart_wait st s = Some (polled st s (Suc k))"
proof (induction k arbitrary: s)
  case 0
  then show ?case
    by (subst uart_wait_unfold) (simp add: polled_Suc [symmetric] polled_0)
next
  case (Suc k)
  let ?s1 = "snd (read_status st s)"
  have busy0: "st (nreads s) AND 1 \<noteq> 0" using Suc.prems(1) [of 0] by simp
  have "uart_wait st ?s1 = Some (polled st ?s1 (Suc k))"
  proof (rule Suc.IH)
    fix i assume "i < k"
    then show "st (nreads ?s1 + i) AND 1 \<noteq> 0"
      using Suc.prems(1) [of "Suc i"] by (simp add: nreads_read_status)
  next
    show "st (nreads ?s1 + k) AND 1 = 0"
      using Suc.prems(2) by (simp add: nreads_read_status)
  qed
  with busy0 show ?case
    by (subst uart_wait_unfold) (simp add: polled_Suc)
qed

lemma uart_wait_Some_idle:
  assumes "uart_wait st s = Some s'"
  shows "\<exists>i. nreads s \<le> i \<and> st i AND 1 = 0"
proof (rule uart_wait.raw_induct
         [where P = "\<lambda>st s s'. \<exists>i. nreads s \<le> i \<and> st i AND 1 = 0", OF _ assms])
  fix f :: "(nat \<Rightarrow> u32) \<Rightarrow> machine \<Rightarrow> machine option" and st s sta
  assume IH: "\<And>st s y. f st s = Some y \<Longrightarrow> \<exists>i. nreads s \<le> i \<and> st i AND 1 = 0"
    and eq: "(case read_status st s of
               (v, s') \<Rightarrow> if v AND 1 \<noteq> 0 then f st s' else Some s') = Some sta"
  show "\<exists>i. nreads s \<le> i \<and> st i AND 1 = 0"
  proof (cases "st (nreads s) AND 1 = 0")
    case True
    then show ?thesis by blast
  next
    case False
    with eq have "f st (snd (read_status st s)) = Some sta"
      by (simp add: read_status_def)
    from IH [OF this] obtain i where "Suc (nreads s) \<le> i" "st i AND 1 = 0"
      by (auto simp: nreads_read_status)
    then show ?thesis by (intro exI [of _ i]) simp
  qed
qed

lemma uart_wait_busy:
  assumes "\<And>i. nreads s \<le> i \<Longrightarrow> st i AND 1 \<noteq> 0"
  shows "uart_wait st s = None"
proof (cases "uart_wait st s")
  case None
  then show ?thesis .
next
  case (Some s')
  from uart_wait_Some_idle [OF this] assms show ?thesis by blast
qed

lemma uart_wait_Some:
  assumes "uart_wait st s = Some s'"
  shows "\<exists>k. (\<forall>i<k. st (nreads s + i) AND 1 \<noteq> 0) \<and> st (nreads s + k) AND 1 = 0
             \<and> s' = polled st s (Suc k)"
proof -
  from uart_wait_Some_idle [OF assms] obtain j where j: "st (nreads s + j) AND 1 = 0"
    by (metis le_Suc_ex)
  define k where "k = (LEAST j. st (nreads s + j) AND 1 = 0)"
  have idle: "st (nreads s + k) AND 1 = 0"
    unfolding k_def using j by (rule LeastI)
  have busy: "st (nreads s + i) AND 1 \<noteq> 0" if "i < k" for i
    using that unfolding k_def by (rule not_less_Least)
  from uart_wait_idle_at [of k st s] busy idle assms
  have "s' = polled st s (Suc k)" by simp
  with busy idle show ?thesis by blast
qed

section \<open>\<^verbatim>\<open>uart_putc\<close>: complete calls and bounded observations\<close>

lemma polled_fields:
  "nreads (polled st s k) = nreads s + k"
  "decs (polled st s k) = decs s"
  "spins (polled st s k) = spins s"
  "tx_history (polled st s k) = tx_history s"
  "led_history (polled st s k) = led_history s"
  by (simp_all add: polled_def tx_history_def led_history_def tx_writes_append
        led_writes_append tx_writes_reads led_writes_reads)

lemma write_tx_fields:
  "nreads (write_tx v s) = nreads s"
  "decs (write_tx v s) = decs s"
  "spins (write_tx v s) = spins s"
  "tx_history (write_tx v s) = tx_history s @ [v]"
  "led_history (write_tx v s) = led_history s"
  by (simp_all add: write_tx_def tx_history_def led_history_def tx_writes_append
        led_writes_append)

lemma uart_putc_idle_at:
  "(\<And>i. i < k \<Longrightarrow> st (nreads s + i) AND 1 \<noteq> 0) \<Longrightarrow> st (nreads s + k) AND 1 = 0
   \<Longrightarrow> uart_putc st sg c s = Some (write_tx (u32_of_char sg c) (polled st s (Suc k)))"
  using uart_wait_idle_at [of k st s] by (simp add: uart_putc_def)

lemma uart_putc_Some:
  assumes "uart_putc st sg c s = Some s'"
  shows "\<exists>k. (\<forall>i<k. st (nreads s + i) AND 1 \<noteq> 0) \<and> st (nreads s + k) AND 1 = 0
             \<and> s' = write_tx (u32_of_char sg c) (polled st s (Suc k))"
proof -
  from assms obtain s1 where s1: "uart_wait st s = Some s1"
    and s': "s' = write_tx (u32_of_char sg c) s1"
    by (auto simp: uart_putc_def split: bind_splits)
  from uart_wait_Some [OF s1] s' show ?thesis by blast
qed

lemma uart_putc_busy:
  "(\<And>i. nreads s \<le> i \<Longrightarrow> st i AND 1 \<noteq> 0) \<Longrightarrow> uart_putc st sg c s = None"
  by (simp add: uart_putc_def uart_wait_busy)

lemma polls_unfold:
  "uart_putc_polls (Suc n) st sg c s =
     (if st (nreads s) AND 1 \<noteq> 0 then uart_putc_polls n st sg c (polled st s 1)
      else (write_tx (u32_of_char sg c) (polled st s 1), True))"
  by (simp add: read_status_def polled_def)

lemma polled_polled: "polled st (polled st s j) k = polled st s (j + k)"
proof -
  have "[nreads s ..< nreads s + (j + k)]
          = [nreads s ..< nreads s + j] @ [nreads s + j ..< nreads s + j + k]"
    using upt_add_eq_append [of "nreads s" "nreads s + j" k] by (simp add: add.assoc)
  then show ?thesis by (simp add: polled_def add.assoc)
qed

lemma polls_busy:
  "(\<And>i. i < n \<Longrightarrow> st (nreads s + i) AND 1 \<noteq> 0)
   \<Longrightarrow> uart_putc_polls n st sg c s = (polled st s n, False)"
proof (induction n arbitrary: s)
  case 0
  show ?case by (simp add: polled_0)
next
  case (Suc n)
  have busy0: "st (nreads s) AND 1 \<noteq> 0" using Suc.prems [of 0] by simp
  have "uart_putc_polls n st sg c (polled st s 1) = (polled st (polled st s 1) n, False)"
  proof (rule Suc.IH)
    fix i assume "i < n"
    then show "st (nreads (polled st s 1) + i) AND 1 \<noteq> 0"
      using Suc.prems [of "Suc i"] by (simp add: polled_fields)
  qed
  with busy0 show ?case
    by (simp only: polls_unfold polled_polled if_True) simp
qed

lemma polls_idle_at:
  "(\<And>i. i < k \<Longrightarrow> st (nreads s + i) AND 1 \<noteq> 0) \<Longrightarrow> st (nreads s + k) AND 1 = 0
   \<Longrightarrow> k < n
   \<Longrightarrow> uart_putc_polls n st sg c s
         = (write_tx (u32_of_char sg c) (polled st s (Suc k)), True)"
proof (induction k arbitrary: s n)
  case 0
  then obtain m where "n = Suc m" by (cases n) auto
  with 0 show ?case by (simp only: polls_unfold) simp
next
  case (Suc k)
  then obtain m where n: "n = Suc m" and m: "k < m" by (cases n) auto
  have busy0: "st (nreads s) AND 1 \<noteq> 0" using Suc.prems(1) [of 0] by simp
  have "uart_putc_polls m st sg c (polled st s 1)
          = (write_tx (u32_of_char sg c) (polled st (polled st s 1) (Suc k)), True)"
  proof (rule Suc.IH)
    fix i assume "i < k"
    then show "st (nreads (polled st s 1) + i) AND 1 \<noteq> 0"
      using Suc.prems(1) [of "Suc i"] by (simp add: polled_fields)
  next
    show "st (nreads (polled st s 1) + k) AND 1 = 0"
      using Suc.prems(2) by (simp add: polled_fields)
  qed (rule m)
  with busy0 show ?case
    unfolding n by (simp only: polls_unfold polled_polled if_True) simp
qed

lemma polls_returned:
  "uart_putc_polls n st sg c s = (s', True) \<Longrightarrow> uart_putc st sg c s = Some s'"
proof (induction n arbitrary: s)
  case 0
  then show ?case by simp
next
  case (Suc n)
  show ?case
  proof (cases "st (nreads s) AND 1 = 0")
    case True
    with Suc.prems have "s' = write_tx (u32_of_char sg c) (polled st s 1)"
      by (simp only: polls_unfold) simp
    with True show ?thesis
      using uart_putc_idle_at [of 0 st s sg c] by simp
  next
    case False
    with Suc.prems have "uart_putc_polls n st sg c (polled st s 1) = (s', True)"
      by (simp only: polls_unfold) simp
    then have "uart_putc st sg c (polled st s 1) = Some s'" by (rule Suc.IH)
    moreover have "polled st s 1 = snd (read_status st s)"
      using polled_Suc [of st s 0] by (simp only: polled_0 One_nat_def)
    moreover have "uart_wait st s = uart_wait st (snd (read_status st s))"
      using False by (subst uart_wait_unfold) simp
    ultimately show ?thesis
      by (simp only: uart_putc_def)
  qed
qed

lemma uart_putc_iff_polls:
  "uart_putc st sg c s = Some s' \<longleftrightarrow> (\<exists>n. uart_putc_polls n st sg c s = (s', True))"
proof
  assume "uart_putc st sg c s = Some s'"
  from uart_putc_Some [OF this] obtain k
    where "\<forall>i<k. st (nreads s + i) AND 1 \<noteq> 0" "st (nreads s + k) AND 1 = 0"
      and "s' = write_tx (u32_of_char sg c) (polled st s (Suc k))"
    by blast
  then have "uart_putc_polls (Suc k) st sg c s = (s', True)"
    using polls_idle_at [of k st s "Suc k" sg c] by simp
  then show "\<exists>n. uart_putc_polls n st sg c s = (s', True)" ..
next
  assume "\<exists>n. uart_putc_polls n st sg c s = (s', True)"
  then show "uart_putc st sg c s = Some s'" by (auto dest: polls_returned)
qed

lemma guarded_mono: "guarded b es \<Longrightarrow> (b \<Longrightarrow> b') \<Longrightarrow> guarded b' es"
proof (induction es arbitrary: b b')
  case Nil
  show ?case by simp
next
  case (Cons e es)
  show ?case
  proof (cases e)
    case (RdStatus v)
    with Cons.prems have "guarded (b \<or> v AND 1 = 0) es" by simp
    then have "guarded (b' \<or> v AND 1 = 0) es"
      by (rule Cons.IH) (use Cons.prems(2) in blast)
    with RdStatus show ?thesis by simp
  next
    case (WrTx v)
    with Cons.prems show ?thesis by simp
  next
    case (WrLed v)
    with Cons.prems have "guarded b es" by simp
    then have "guarded b' es" by (rule Cons.IH) (rule Cons.prems(2))
    with WrLed show ?thesis by simp
  qed
qed

lemma guarded_weaken: "guarded False es \<Longrightarrow> guarded seen es"
  by (erule guarded_mono) simp

lemma guarded_append: "guarded seen xs \<Longrightarrow> guarded False ys \<Longrightarrow> guarded seen (xs @ ys)"
proof (induction xs arbitrary: seen)
  case Nil
  then show ?case by (simp add: guarded_weaken)
next
  case (Cons e es)
  then show ?case by (cases e) auto
qed

lemma guarded_busy_reads:
  "(\<And>i. i \<in> set ns \<Longrightarrow> st i AND 1 \<noteq> 0)
   \<Longrightarrow> guarded False (map (\<lambda>i. RdStatus (st i)) ns @ es) = guarded False es"
  by (induction ns) simp_all

lemma guarded_any_reads: "guarded b (map (\<lambda>i. RdStatus (st i)) ns)"
  by (induction ns arbitrary: b) simp_all

lemma putc_trace_guarded:
  assumes busy: "\<And>i. i < k \<Longrightarrow> st (nreads s + i) AND 1 \<noteq> 0"
    and idle: "st (nreads s + k) AND 1 = 0"
  shows "\<exists>new. trace (write_tx x (polled st s (Suc k))) = trace s @ new
               \<and> guarded False new \<and> tx_writes new = [x]"
proof -
  let ?reads = "map (\<lambda>i. RdStatus (st i)) [nreads s ..< nreads s + k]"
  let ?new = "?reads @ [RdStatus (st (nreads s + k)), WrTx x]"
  have tr: "trace (write_tx x (polled st s (Suc k))) = trace s @ ?new"
    by (simp add: write_tx_def polled_def)
  have "guarded False ?new = guarded False [RdStatus (st (nreads s + k)), WrTx x]"
  proof (rule guarded_busy_reads)
    fix i assume "i \<in> set [nreads s ..< nreads s + k]"
    then obtain j where "i = nreads s + j" "j < k"
      by (auto simp: le_iff_add)
    with busy show "st i AND 1 \<noteq> 0" by simp
  qed
  with idle have g: "guarded False ?new" by simp
  have "tx_writes ?new = [x]"
    by (simp add: tx_writes_append tx_writes_reads)
  with tr g show ?thesis by blast
qed

lemma polls_cases:
  "(uart_putc_polls n st sg c s = (polled st s n, False)
      \<and> (\<forall>i<n. st (nreads s + i) AND 1 \<noteq> 0))
   \<or> (\<exists>k<n. (\<forall>i<k. st (nreads s + i) AND 1 \<noteq> 0) \<and> st (nreads s + k) AND 1 = 0
          \<and> uart_putc_polls n st sg c s
              = (write_tx (u32_of_char sg c) (polled st s (Suc k)), True))"
proof (cases "\<exists>j<n. st (nreads s + j) AND 1 = 0")
  case False
  then have busy: "\<And>i. i < n \<Longrightarrow> st (nreads s + i) AND 1 \<noteq> 0" by blast
  from polls_busy [of n st s sg c] busy
  have "uart_putc_polls n st sg c s = (polled st s n, False)" by blast
  with busy show ?thesis by blast
next
  case True
  then obtain j where j: "j < n" "st (nreads s + j) AND 1 = 0" by blast
  define k where "k = (LEAST j. st (nreads s + j) AND 1 = 0)"
  have idle: "st (nreads s + k) AND 1 = 0"
    unfolding k_def using j(2) by (rule LeastI)
  have busy: "st (nreads s + i) AND 1 \<noteq> 0" if "i < k" for i
    using that unfolding k_def by (rule not_less_Least)
  have "k \<le> j" unfolding k_def using j(2) by (rule Least_le)
  with j(1) have kn: "k < n" by simp
  from polls_idle_at [of k st s n sg c] busy idle kn
  have "uart_putc_polls n st sg c s
          = (write_tx (u32_of_char sg c) (polled st s (Suc k)), True)" by blast
  with kn busy idle show ?thesis by blast
qed

lemma polls_trace_guarded:
  "\<exists>new. trace (fst (uart_putc_polls n st sg c s)) = trace s @ new \<and> guarded False new"
proof -
  from polls_cases [of n st sg c s] show ?thesis
  proof (elim disjE conjE exE)
    assume sp: "uart_putc_polls n st sg c s = (polled st s n, False)"
    have "trace (polled st s n)
            = trace s @ map (\<lambda>i. RdStatus (st i)) [nreads s ..< nreads s + n]"
      by (simp add: polled_def)
    with sp show ?thesis
      using guarded_any_reads [of False st "[nreads s ..< nreads s + n]"] by auto
  next
    fix k
    assume busy: "\<forall>i<k. st (nreads s + i) AND 1 \<noteq> 0"
      and idle: "st (nreads s + k) AND 1 = 0"
      and ret: "uart_putc_polls n st sg c s
                  = (write_tx (u32_of_char sg c) (polled st s (Suc k)), True)"
    from putc_trace_guarded [of k st s "u32_of_char sg c"] busy idle
    obtain new
      where "trace (write_tx (u32_of_char sg c) (polled st s (Suc k))) = trace s @ new"
        "guarded False new" by blast
    with ret show ?thesis by auto
  qed
qed

lemma uart_putc_trace_guarded:
  assumes "uart_putc st sg c s = Some s'"
  shows "\<exists>new. trace s' = trace s @ new \<and> guarded False new
               \<and> tx_writes new = [u32_of_char sg c]"
proof -
  from uart_putc_Some [OF assms] obtain k
    where "\<forall>i<k. st (nreads s + i) AND 1 \<noteq> 0" "st (nreads s + k) AND 1 = 0"
      and "s' = write_tx (u32_of_char sg c) (polled st s (Suc k))"
    by blast
  with putc_trace_guarded [of k st s "u32_of_char sg c"] show ?thesis by blast
qed

text \<open>
  Claim C3. For every call of \<^verbatim>\<open>uart_putc\<close> and every stream of status-register
  values, the write to \<^verbatim>\<open>UART_TX\<close> is issued only after the status register has been
  read with bit 0 clear since the previous data write. This holds of the events of
  the call at every moment of its execution (after any number \<open>n\<close> of polls, also when
  it never returns), of the events of a call that returns (which hold exactly one data
  write, of the character), and so of the whole trace when it held before the call.
\<close>

theorem uart_putc_writes_only_after_idle:
  "(\<exists>new. trace (fst (uart_putc_polls n st sg c s)) = trace s @ new \<and> guarded False new)
   \<and> (\<forall>s'. uart_putc st sg c s = Some s' \<longrightarrow>
         (\<exists>new. trace s' = trace s @ new \<and> guarded False new
                \<and> tx_writes new = [u32_of_char sg c]))
   \<and> (guarded seen (trace s) \<longrightarrow> guarded seen (trace (fst (uart_putc_polls n st sg c s))))"
proof (intro conjI allI impI)
  show "\<exists>new. trace (fst (uart_putc_polls n st sg c s)) = trace s @ new \<and> guarded False new"
    by (rule polls_trace_guarded)
next
  fix s' assume "uart_putc st sg c s = Some s'"
  then show "\<exists>new. trace s' = trace s @ new \<and> guarded False new
                  \<and> tx_writes new = [u32_of_char sg c]"
    by (rule uart_putc_trace_guarded)
next
  assume g: "guarded seen (trace s)"
  from polls_trace_guarded [of n st sg c s] obtain new
    where "trace (fst (uart_putc_polls n st sg c s)) = trace s @ new" "guarded False new"
    by blast
  with g show "guarded seen (trace (fst (uart_putc_polls n st sg c s)))"
    by (simp add: guarded_append)
qed

lemma upt_3: "[0..<3] = [0, 1, 2]"
  by (simp add: upt_conv_Cons)

theorem uart_putc_writes_only_after_idle_witness:
  "uart_putc (busy_then_idle 2) False 0x41 init_machine
     = Some \<lparr>nreads = 3, trace = [RdStatus 1, RdStatus 1, RdStatus 0, WrTx 0x41],
             decs = 0, spins = 0\<rparr>
   \<and> guarded False [RdStatus 1, RdStatus 1, RdStatus 0, WrTx 0x41]
   \<and> guarded False (trace init_machine)
   \<and> guarded False (trace (fst (uart_putc_polls 5 (busy_then_idle 2) False 0x41 init_machine)))"
proof -
  have run: "uart_putc (busy_then_idle 2) False 0x41 init_machine
     = Some \<lparr>nreads = 3, trace = [RdStatus 1, RdStatus 1, RdStatus 0, WrTx 0x41],
             decs = 0, spins = 0\<rparr>"
    using uart_putc_idle_at [of 2 "busy_then_idle 2" init_machine False "0x41"]
    by (simp add: busy_then_idle_def init_machine_def polled_def write_tx_def
          u32_of_char_def upt_3)
  have g0: "guarded False (trace init_machine)"
    by (simp add: init_machine_def)
  from uart_putc_writes_only_after_idle
         [where n = 5 and st = "busy_then_idle 2" and sg = False and c = "0x41"
            and s = init_machine and seen = False] run g0
  show ?thesis by simp
qed

text \<open>
  Claim C4. If every read of the status register returns busy (bit 0 set), then
  \<^verbatim>\<open>uart_putc\<close> never returns, and for every number \<open>n\<close> of polls, after \<open>n\<close> polls it
  is still in its loop, has read the status register \<open>n\<close> times and has written nothing
  to \<^verbatim>\<open>UART_TX\<close>.
\<close>

theorem uart_putc_never_returns_while_busy:
  assumes "\<forall>i. st i AND 1 = 1"
  shows "uart_putc st sg c s = None
         \<and> snd (uart_putc_polls n st sg c s) = False
         \<and> tx_history (fst (uart_putc_polls n st sg c s)) = tx_history s
         \<and> nreads (fst (uart_putc_polls n st sg c s)) = nreads s + n"
proof -
  have busy: "st i AND 1 \<noteq> 0" for i using assms by simp
  have "uart_putc st sg c s = None"
    by (rule uart_putc_busy) (rule busy)
  moreover have "uart_putc_polls n st sg c s = (polled st s n, False)"
    by (rule polls_busy) (rule busy)
  ultimately show ?thesis by (simp add: polled_fields)
qed

theorem uart_putc_never_returns_while_busy_witness:
  "(\<forall>i. busy_status i AND 1 = 1)
   \<and> uart_putc busy_status False 0x41 init_machine = None
   \<and> snd (uart_putc_polls 7 busy_status False 0x41 init_machine) = False
   \<and> tx_history (fst (uart_putc_polls 7 busy_status False 0x41 init_machine)) = []
   \<and> nreads (fst (uart_putc_polls 7 busy_status False 0x41 init_machine)) = 7"
proof -
  have h: "\<forall>i. busy_status i AND 1 = 1" by (simp add: busy_status_def)
  from uart_putc_never_returns_while_busy [OF h, of False "0x41" init_machine 7] h
  show ?thesis by (simp add: init_machine_def tx_history_def)
qed

text \<open>
  Claim C9. \<^verbatim>\<open>uart_puts\<close> on the empty string (the byte at \<open>p\<close> is zero) returns at once
  with the machine unchanged: the count of status reads and the trace of register
  accesses are those of the call's start, so no read of \<^verbatim>\<open>UART_STATUS\<close> and no write
  to \<^verbatim>\<open>UART_TX\<close> has happened, whatever the status register would have answered.
\<close>

theorem uart_puts_empty_no_access:
  assumes "mem p = 0"
  shows "uart_puts st sg mem p s = Some s
         \<and> map_option nreads (uart_puts st sg mem p s) = Some (nreads s)
         \<and> map_option trace (uart_puts st sg mem p s) = Some (trace s)"
proof -
  from assms have "uart_puts st sg mem p s = Some s"
    by (subst uart_puts.simps) simp
  then show ?thesis by simp
qed

theorem uart_puts_empty_no_access_witness:
  "zero_mem 0 = 0
   \<and> uart_puts busy_status False zero_mem 0 init_machine = Some init_machine
   \<and> map_option nreads (uart_puts busy_status False zero_mem 0 init_machine) = Some 0
   \<and> map_option trace (uart_puts busy_status False zero_mem 0 init_machine) = Some []"
proof -
  have h: "zero_mem 0 = 0" by (simp add: zero_mem_def)
  from uart_puts_empty_no_access
         [where mem = zero_mem and p = 0 and st = busy_status and sg = False
            and s = init_machine] h
  show ?thesis by (simp add: init_machine_def)
qed

section \<open>\<^verbatim>\<open>uart_puts\<close> and the startup\<close>

lemma uart_puts_cstr:
  "cstr_at mem p bs \<Longrightarrow> uart_puts st sg mem p s = putc_list st sg bs s"
proof (induction bs arbitrary: p s)
  case Nil
  then show ?case by (subst uart_puts.simps) simp
next
  case (Cons b bs)
  then have b: "mem p = b" "b \<noteq> 0" and rest: "cstr_at mem (p + 1) bs" by simp_all
  have "uart_puts st sg mem (p + 1) s' = putc_list st sg bs s'" for s'
    using rest by (rule Cons.IH)
  then have "uart_puts st sg mem (p + 1) = putc_list st sg bs" by (rule ext)
  with b show ?case by (subst uart_puts.simps) simp
qed

lemma greeting_bytes:
  "greeting = [0x48, 0x65, 0x6C, 0x6C, 0x6F, 0x2C, 0x20, 0x41, 0x72, 0x74, 0x79, 0x20,
               0x41, 0x37, 0x21, 0x0D, 0x0A]"
  by (simp add: greeting_def)

lemma greeting_u32:
  "map (u32_of_char sg) greeting
     = [0x48, 0x65, 0x6C, 0x6C, 0x6F, 0x2C, 0x20, 0x41, 0x72, 0x74, 0x79, 0x20,
        0x41, 0x37, 0x21, 0x0D, 0x0A]"
  by (cases sg) (simp_all add: greeting_bytes u32_of_char_def)

lemma greeting_cstr: "cstr_at (place_literal mem lit greeting) lit greeting"
  by (simp add: greeting_bytes place_literal_def)

lemma uart_putc_fields:
  assumes "uart_putc st sg c s = Some s'"
  shows "tx_history s' = tx_history s @ [u32_of_char sg c]"
    and "led_history s' = led_history s"
    and "decs s' = decs s" and "spins s' = spins s"
proof -
  from uart_putc_Some [OF assms] obtain k
    where "s' = write_tx (u32_of_char sg c) (polled st s (Suc k))" by blast
  then show "tx_history s' = tx_history s @ [u32_of_char sg c]"
    and "led_history s' = led_history s"
    and "decs s' = decs s" and "spins s' = spins s"
    by (simp_all add: write_tx_fields polled_fields)
qed

lemma putc_list_fields:
  "putc_list st sg bs s = Some s' \<Longrightarrow>
     tx_history s' = tx_history s @ map (u32_of_char sg) bs
     \<and> led_history s' = led_history s \<and> decs s' = decs s \<and> spins s' = spins s"
proof (induction bs arbitrary: s)
  case Nil
  then show ?case by simp
next
  case (Cons b bs)
  from Cons.prems obtain s1 where s1: "uart_putc st sg b s = Some s1"
    and rest: "putc_list st sg bs s1 = Some s'"
    by (auto split: bind_splits)
  from Cons.IH [OF rest] uart_putc_fields [OF s1] show ?case by simp
qed

lemma uart_putc_returns:
  assumes "\<exists>j. nreads s \<le> j \<and> st j AND 1 = 0"
  shows "\<exists>s'. uart_putc st sg c s = Some s'"
proof -
  from assms obtain j where j: "st (nreads s + j) AND 1 = 0"
    by (metis le_Suc_ex)
  define k where "k = (LEAST j. st (nreads s + j) AND 1 = 0)"
  have idle: "st (nreads s + k) AND 1 = 0"
    unfolding k_def using j by (rule LeastI)
  have busy: "st (nreads s + i) AND 1 \<noteq> 0" if "i < k" for i
    using that unfolding k_def by (rule not_less_Least)
  from uart_putc_idle_at [of k st s sg c] busy idle show ?thesis by blast
qed

lemma putc_list_returns:
  assumes "\<forall>i. \<exists>j. i \<le> j \<and> st j AND 1 = 0"
  shows "\<exists>s'. putc_list st sg bs s = Some s'"
proof (induction bs arbitrary: s)
  case Nil
  show ?case by simp
next
  case (Cons b bs)
  from assms have "\<exists>j. nreads s \<le> j \<and> st j AND 1 = 0" by blast
  then obtain s1 where "uart_putc st sg b s = Some s1"
    using uart_putc_returns by blast
  with Cons.IH [of s1] show ?case by simp
qed

lemma main_startup_putc_list:
  "main_startup st sg mem lit = putc_list st sg greeting init_machine"
  unfolding main_startup_def by (rule uart_puts_cstr) (rule greeting_cstr)

lemma tx_history_init: "tx_history init_machine = []" "led_history init_machine = []"
  by (simp_all add: tx_history_def led_history_def init_machine_def)

lemma main_startup_Some:
  assumes "main_startup st sg mem lit = Some s'"
  shows "tx_history s'
           = [0x48, 0x65, 0x6C, 0x6C, 0x6F, 0x2C, 0x20, 0x41, 0x72, 0x74, 0x79, 0x20,
              0x41, 0x37, 0x21, 0x0D, 0x0A]"
    and "led_history s' = []"
proof -
  from assms have "putc_list st sg greeting init_machine = Some s'"
    by (simp only: main_startup_putc_list)
  from putc_list_fields [OF this]
  show "tx_history s'
           = [0x48, 0x65, 0x6C, 0x6C, 0x6F, 0x2C, 0x20, 0x41, 0x72, 0x74, 0x79, 0x20,
              0x41, 0x37, 0x21, 0x0D, 0x0A]"
    and "led_history s' = []"
    by (simp_all only: tx_history_init greeting_u32 append_Nil)
qed

lemma main_startup_returns:
  assumes "\<forall>i. \<exists>j. i \<le> j \<and> st j AND 1 = 0"
  shows "\<exists>s'. main_startup st sg mem lit = Some s'"
  using putc_list_returns [OF assms] by (simp only: main_startup_putc_list)

lemma idle_status_idle: "\<forall>i. idle_status i AND 1 = 0"
  by (simp add: idle_status_def)

lemma always_idle_recurs:
  fixes st :: "nat \<Rightarrow> u32"
  assumes "\<forall>i. st i AND 1 = 0"
  shows "\<forall>i. \<exists>j. i \<le> j \<and> st j AND 1 = 0"
proof
  fix i
  from assms have "i \<le> i \<and> st i AND 1 = 0" by simp
  then show "\<exists>j. i \<le> j \<and> st j AND 1 = 0" ..
qed

text \<open>
  Claim C1. When the status register reads idle at every poll, the startup returns and
  the bytes written to \<^verbatim>\<open>UART_TX\<close> up to then are exactly the ASCII codes of
  \<^verbatim>\<open>Hello, Arty A7!\<close>, carriage return, line feed, in this order and nothing else,
  wherever the literal is placed and whether \<^verbatim>\<open>char\<close> is signed or not.
\<close>

theorem startup_transmits_greeting:
  assumes "\<forall>i. st i AND 1 = 0"
  shows "map_option tx_history (main_startup st sg mem lit)
           = Some [0x48, 0x65, 0x6C, 0x6C, 0x6F, 0x2C, 0x20, 0x41, 0x72, 0x74, 0x79, 0x20,
                   0x41, 0x37, 0x21, 0x0D, 0x0A]
         \<and> map_option tx_history (main_startup st sg mem lit)
           = Some (map of_char (''Hello, Arty A7!'' @ [CHR 0x0D, CHR 0x0A]))"
proof -
  from main_startup_returns [OF always_idle_recurs [OF assms]]
  obtain s' where s': "main_startup st sg mem lit = Some s'" by blast
  from main_startup_Some(1) [OF s'] s' show ?thesis by simp
qed

theorem startup_transmits_greeting_witness:
  "(\<forall>i. idle_status i AND 1 = 0)
   \<and> map_option tx_history (main_startup idle_status False zero_mem 0)
       = Some [0x48, 0x65, 0x6C, 0x6C, 0x6F, 0x2C, 0x20, 0x41, 0x72, 0x74, 0x79, 0x20,
               0x41, 0x37, 0x21, 0x0D, 0x0A]"
  using startup_transmits_greeting [OF idle_status_idle, of False zero_mem 0]
    idle_status_idle by simp

text \<open>
  Claim C6, as stated: the startup stream has 19 bytes. With an idle transmitter the
  program writes 17 bytes, not 19.
\<close>

theorem startup_stream_not_19_bytes:
  "map_option tx_count (main_startup idle_status False zero_mem 0) = Some 17
   \<and> map_option tx_count (main_startup idle_status False zero_mem 0) \<noteq> Some 19"
proof -
  from main_startup_returns [OF always_idle_recurs [OF idle_status_idle]]
  obtain s' where s': "main_startup idle_status False zero_mem 0 = Some s'" by blast
  from main_startup_Some(1) [OF s'] s' show ?thesis by (simp add: tx_count_def)
qed

lemma busy_then_idle_recurs: "\<forall>i. \<exists>j. i \<le> j \<and> busy_then_idle k j AND 1 = 0"
proof
  fix i
  have "i \<le> i + k \<and> busy_then_idle k (i + k) AND 1 = 0"
    by (simp add: busy_then_idle_def)
  then show "\<exists>j. i \<le> j \<and> busy_then_idle k j AND 1 = 0" ..
qed

text \<open>
  Claim C6, amended. Whenever the status register keeps coming back to idle (after
  every poll there is a later poll that reads bit 0 clear), the startup completes and
  the byte stream it has transmitted is 17 bytes long (the 15 characters of
  \<^verbatim>\<open>Hello, Arty A7!\<close> and the two line-ending bytes), and its last two bytes are
  carriage return, then line feed.
\<close>

theorem startup_stream_17_bytes:
  assumes "\<forall>i. \<exists>j. i \<le> j \<and> st j AND 1 = 0"
  shows "map_option tx_count (main_startup st sg mem lit) = Some 17
         \<and> map_option tx_from_16th (main_startup st sg mem lit) = Some [0x0D, 0x0A]"
proof -
  from main_startup_returns [OF assms]
  obtain s' where s': "main_startup st sg mem lit = Some s'" by blast
  from main_startup_Some(1) [OF s'] s' show ?thesis
    by (simp add: tx_count_def tx_from_16th_def)
qed

theorem startup_stream_17_bytes_witness:
  "(\<forall>i. \<exists>j. i \<le> j \<and> busy_then_idle 5 j AND 1 = 0)
   \<and> map_option tx_count (main_startup (busy_then_idle 5) True zero_mem 0x1000) = Some 17
   \<and> map_option tx_from_16th (main_startup (busy_then_idle 5) True zero_mem 0x1000)
       = Some [0x0D, 0x0A]"
  using startup_stream_17_bytes
          [OF busy_then_idle_recurs [of 5], where sg = True and mem = zero_mem
             and lit = "0x1000"]
    busy_then_idle_recurs [of 5]
  by (simp only: simp_thms)

section \<open>\<^verbatim>\<open>delay\<close> and the LED loop\<close>

lemma delay_loop_eq:
  "delay_loop n s
     = (- 1, s\<lparr>decs := decs s + unat n + 1, spins := spins s + unat n\<rparr>)"
proof (induction k \<equiv> "unat n" arbitrary: n s)
  case 0
  then have "n = 0" by (simp add: unat_eq_0)
  then show ?case by (subst delay_loop.simps) simp
next
  case (Suc k)
  then have nz: "n \<noteq> 0" by auto
  with Suc.hyps(2) have k: "k = unat (n - 1)" by (simp add: unat_minus_one)
  have un: "unat n = Suc (unat (n - 1))" using Suc.hyps(2) k by simp
  from nz show ?case
    by (subst delay_loop.simps) (simp add: Let_def Suc.hyps(1) [OF k] un)
qed

lemma delay_eq:
  "delay n s = s\<lparr>decs := decs s + unat n + 1, spins := spins s + unat n\<rparr>"
  by (simp add: delay_def delay_loop_eq)

lemma delay_fields:
  "nreads (delay n s) = nreads s"
  "trace (delay n s) = trace s"
  "tx_history (delay n s) = tx_history s"
  "led_history (delay n s) = led_history s"
  "decs (delay n s) = decs s + unat n + 1"
  "spins (delay n s) = spins s + unat n"
  by (simp_all add: delay_eq tx_history_def led_history_def)

lemma write_led_fields:
  "nreads (write_led v s) = nreads s"
  "decs (write_led v s) = decs s"
  "spins (write_led v s) = spins s"
  "tx_history (write_led v s) = tx_history s"
  "led_history (write_led v s) = led_history s @ [v]"
  by (simp_all add: write_led_def tx_history_def led_history_def tx_writes_append
        led_writes_append)

lemma main_body_eq:
  "main_body (p, s) = (p + 1, delay 5000000 (write_led (ucast p AND 0x0F) s))"
  by (simp add: main_body_def Let_def)

lemma main_loop_fields:
  fixes p :: u8
  shows "fst (main_loop n (p, s)) = p + of_nat n
   \<and> led_history (snd (main_loop n (p, s)))
       = led_history s @ map (\<lambda>i. ucast (p + of_nat i) AND 0x0F) [0..<n]
   \<and> tx_history (snd (main_loop n (p, s))) = tx_history s
   \<and> nreads (snd (main_loop n (p, s))) = nreads s"
proof (induction n arbitrary: p s)
  case 0
  show ?case by simp
next
  case (Suc n)
  let ?s1 = "delay 5000000 (write_led (ucast p AND 0x0F) s)"
  have "main_loop (Suc n) (p, s) = main_loop n (p + 1, ?s1)"
    by (simp add: main_body_eq)
  moreover have "map (\<lambda>i. (ucast (p + of_nat i) AND 0x0F :: u32)) [0..<Suc n]
      = (ucast p AND 0x0F) # map (\<lambda>i. ucast (p + 1 + of_nat i) AND 0x0F) [0..<n]"
    by (simp only: map_upt_Suc) (simp add: ac_simps)
  ultimately show ?case
    using Suc.IH [of "p + 1" ?s1]
    by (simp add: delay_fields write_led_fields add.assoc del: upt_Suc)
qed

lemma main_loop_pattern: "fst (main_loop n (p, s)) = p + of_nat n"
  using main_loop_fields [of n p s] by (simp only:)

lemma main_loop_led:
  "led_history (snd (main_loop n (p, s)))
     = led_history s @ map (\<lambda>i. ucast (p + of_nat i) AND 0x0F) [0..<n]"
  using main_loop_fields [of n p s] by (simp only:)

lemma main_loop_tx: "tx_history (snd (main_loop n (p, s))) = tx_history s"
  using main_loop_fields [of n p s] by (simp only:)

lemma cycle_length_differs:
  "length (map (\<lambda>i. of_nat (i mod 16) :: u32) [0..<256])
     \<noteq> length (map of_nat ([0..<256] @ [0]) :: u32 list)"
  by (simp only: length_map length_append length_upt list.size)

lemma cycle_17th_write: "map (\<lambda>i. of_nat (i mod 16) :: u32) [0..<257] ! 16 = 0"
  using nth_map_upt [of 16 257 0 "\<lambda>i. of_nat (i mod 16) :: u32"] by simp

lemma range_17th: "(map of_nat ([0..<256] @ [0]) :: u32 list) ! 16 = 16"
proof -
  have "([0..<256] @ [0::nat]) ! 16 = [0..<256] ! 16"
    by (simp only: nth_append length_upt) simp
  also have "\<dots> = 16" using nth_upt [of 0 16 256] by simp
  finally have "([0..<256] @ [0::nat]) ! 16 = 16" .
  moreover have "(16::nat) < length ([0..<256] @ [0::nat])"
    by (simp only: length_append length_upt list.size)
  ultimately show ?thesis by (simp only: nth_map) simp
qed

lemma upt_257: "map (\<lambda>i. of_nat (i mod 16) :: u32) [0..<257]
          = map (\<lambda>i. of_nat (i mod 16)) [0..<256] @ [0]"
proof -
  have "[0..<Suc 256] = [0..<256] @ [256]" by (simp only: upt_Suc_append le0)
  moreover have "Suc 256 = 257" by simp
  ultimately have "[0..<257] = [0..<256] @ [256]" by (simp only:)
  then show ?thesis by (simp only: map_append list.map) simp
qed

lemma unat_u8_less: "unat (w :: u8) < 256"
proof -
  have "unat w < 2 ^ LENGTH(8)" by (rule unsigned_less)
  then show ?thesis by simp
qed

lemma unat_ucast_u8: "unat (ucast (w :: u8) :: u32) = unat w"
  using unat_u8_less [of w] by (simp add: unsigned_ucast_eq take_bit_nat_eq_self_iff)

lemma unat_low_nibble: "unat (ucast (w :: u8) AND 0x0F :: u32) = unat w mod 16"
proof -
  have m: "(0x0F :: u32) = mask 4" by (simp add: mask_eq_exp_minus_1)
  have "unat (take_bit 4 (ucast w :: u32)) = take_bit 4 (unat (ucast w :: u32))"
    by (rule unsigned_take_bit_eq)
  then show ?thesis unfolding m
    by (simp add: take_bit_eq_mask [symmetric] take_bit_eq_mod unat_ucast_u8)
qed

lemma low_nibble_of_counter:
  "(ucast (of_nat i :: u8) AND 0x0F :: u32) = of_nat (i mod 256 mod 16)"
proof -
  have "unat (ucast (of_nat i :: u8) AND 0x0F :: u32) = i mod 256 mod 16"
    by (simp add: unat_low_nibble unat_of_nat)
  moreover have "unat (of_nat (i mod 256 mod 16) :: u32) = i mod 256 mod 16"
    by (simp add: unat_of_nat mod_mod_cancel)
  ultimately show ?thesis by (simp only: word_unat_eq_iff)
qed

lemma unat_u8_succ: "unat (p + 1 :: u8) = (unat p + 1) mod 256"
  by (simp add: unat_word_ariths)

lemma nibble_le: "(x AND 0x0F :: u32) \<le> 15"
  by (rule word_and_le1)

lemma nibble_high_zero: "(x AND 0x0F :: u32) AND 0xFFFFFFF0 = 0"
  by (simp add: and.assoc)


lemma main_run_Some:
  assumes "main_run st sg mem lit n = Some (p, s')"
  shows "\<exists>s1. main_startup st sg mem lit = Some s1 \<and> main_loop n (0, s1) = (p, s')"
  using assms by (auto simp: main_run_def)

lemma main_run_idle:
  assumes "\<forall>i. st i AND 1 = 0"
  shows "\<exists>s1. main_startup st sg mem lit = Some s1
              \<and> main_run st sg mem lit n = Some (main_loop n (0, s1))"
proof -
  from main_startup_returns [OF always_idle_recurs [OF assms]]
  obtain s1 where "main_startup st sg mem lit = Some s1" by blast
  then show ?thesis by (simp add: main_run_def)
qed

lemma main_loop_led_from_0:
  "led_history (snd (main_loop n (0, s)))
     = led_history s @ map (\<lambda>i. of_nat (i mod 256 mod 16)) [0..<n]"
  using main_loop_led [of n 0 s] by (simp add: low_nibble_of_counter)

lemma main_loop_pattern_from_0: "unat (fst (main_loop n (0, s))) = n mod 256"
  using main_loop_pattern [of n 0 s] by (simp add: unat_of_nat)

lemma main_run_led_Some:
  assumes "main_run st sg mem lit n = Some (p, s')"
  shows "led_history s' = map (\<lambda>i. of_nat (i mod 16)) [0..<n]"
proof -
  from main_run_Some [OF assms] obtain s1
    where s1: "main_startup st sg mem lit = Some s1" and run: "main_loop n (0, s1) = (p, s')"
    by blast
  from main_loop_led_from_0 [of n s1] run main_startup_Some(2) [OF s1]
  show ?thesis by (simp add: mod_mod_cancel)
qed

text \<open>
  Claim C2. In the steady-state loop every iteration writes the low 4 bits of the 8-bit
  counter to the LED register and then increments the counter by one, wrapping from 255
  to 0. So, from the counter's initial value 0, the counter after \<open>n\<close> iterations is
  \<open>n mod 256\<close> and the \<open>i\<close>-th LED write (counting from 0) is the low nibble of
  \<open>i mod 256\<close>: the writes follow the counter in increasing order modulo 256.
\<close>

theorem led_writes_follow_counter:
  "fst (main_body (p, s)) = p + 1
   \<and> unat (p + 1) = (unat p + 1) mod 256
   \<and> led_history (snd (main_body (p, s))) = led_history s @ [ucast p AND 0x0F]
   \<and> unat (ucast p AND 0x0F :: u32) = unat p mod 16
   \<and> unat (fst (main_loop n (0, s))) = n mod 256
   \<and> led_history (snd (main_loop n (0, s)))
       = led_history s @ map (\<lambda>i. of_nat (i mod 256 mod 16)) [0..<n]"
  by (simp add: main_body_eq unat_u8_succ delay_fields write_led_fields unat_low_nibble
        main_loop_pattern_from_0 main_loop_led_from_0)

text \<open>
  Claim C5, as stated: \<^verbatim>\<open>delay(0)\<close> performs zero decrements of the loop variable and
  \<^verbatim>\<open>delay(N)\<close> exactly \<open>N\<close>. The loop condition \<^verbatim>\<open>count--\<close> decrements the variable
  each time it is tested, also the last time, when it finds it zero: \<^verbatim>\<open>delay(0)\<close>
  decrements once, \<^verbatim>\<open>delay(3)\<close> four times.
\<close>

theorem delay_decrements_not_N:
  "decs init_machine = 0 \<and> decs (delay 0 init_machine) = 1
   \<and> decs (delay 0 init_machine) \<noteq> 0 \<and> decs (delay 3 init_machine) \<noteq> 3"
  by (simp add: delay_fields init_machine_def)

text \<open>
  Claim C5, amended. \<^verbatim>\<open>delay(N)\<close> always returns, after evaluating \<^verbatim>\<open>count--\<close>
  exactly \<open>N + 1\<close> times: \<open>N\<close> times it finds the variable non-zero and runs the empty loop
  body, so the body runs exactly \<open>N\<close> times (zero times for \<^verbatim>\<open>delay(0)\<close>), and a last
  time it finds it zero, which ends the loop with the variable wrapped to
  \<^verbatim>\<open>0xFFFFFFFF\<close>. It accesses no register.
\<close>

theorem delay_decrements:
  "decs (delay n s) = decs s + unat n + 1
   \<and> spins (delay n s) = spins s + unat n
   \<and> fst (delay_loop n s) = 0xFFFFFFFF
   \<and> trace (delay n s) = trace s
   \<and> nreads (delay n s) = nreads s"
  by (simp add: delay_fields delay_loop_eq)

text \<open>
  Claim C7, as stated: with zero-initialised memory and the status register always
  idle, one full cycle of 256 iterations gives the LED write history 0, 1, 2, ..., 255, 0.
  Neither the history after 256 iterations (256 writes) nor the one after 257
  iterations is that sequence: the written values are masked to four bits, so the
  seventeenth write is 0, not 16.
\<close>

theorem led_cycle_not_0_to_255:
  "led_history_after idle_status False zero_mem 0 256 \<noteq> Some (map of_nat ([0..<256] @ [0]))
   \<and> led_history_after idle_status False zero_mem 0 257
        \<noteq> Some (map of_nat ([0..<256] @ [0]))"
proof -
  have run: "\<exists>p s'. main_run idle_status False zero_mem 0 n = Some (p, s')" for n
    using main_run_idle [OF idle_status_idle, of False zero_mem 0 n]
    by (metis surj_pair)
  have led: "led_history_after idle_status False zero_mem 0 n
               = Some (map (\<lambda>i. of_nat (i mod 16)) [0..<n])" for n
  proof -
    from run [of n] obtain p s'
      where r: "main_run idle_status False zero_mem 0 n = Some (p, s')" by blast
    from main_run_led_Some [OF r] r show ?thesis by (simp add: led_history_after_def)
  qed
  have a: "map (\<lambda>i. of_nat (i mod 16) :: u32) [0..<256] \<noteq> map of_nat ([0..<256] @ [0])"
  proof
    assume "map (\<lambda>i. of_nat (i mod 16) :: u32) [0..<256] = map of_nat ([0..<256] @ [0])"
    then have "length (map (\<lambda>i. of_nat (i mod 16) :: u32) [0..<256])
                 = length (map of_nat ([0..<256] @ [0]) :: u32 list)"
      by (rule arg_cong)
    with cycle_length_differs show False by (rule notE)
  qed
  have b: "map (\<lambda>i. of_nat (i mod 16) :: u32) [0..<257] \<noteq> map of_nat ([0..<256] @ [0])"
  proof
    assume "map (\<lambda>i. of_nat (i mod 16) :: u32) [0..<257] = map of_nat ([0..<256] @ [0])"
    then have "map (\<lambda>i. of_nat (i mod 16) :: u32) [0..<257] ! 16
                 = (map of_nat ([0..<256] @ [0]) :: u32 list) ! 16"
      by (rule arg_cong [where f = "\<lambda>xs. xs ! 16"])
    then have "(0 :: u32) = 16" by (simp only: cycle_17th_write range_17th)
    then show False by simp
  qed
  from a b show ?thesis by (simp only: led option.inject simp_thms)
qed

text \<open>
  Claim C7, amended. With the status register always idle (and any memory, a
  zero-initialised one included), one full cycle of 256 iterations gives the LED write
  history whose \<open>i\<close>-th entry is \<open>i mod 16\<close>: the values 0, 1, ..., 15 sixteen times over,
  the low nibbles of the counter values 0, 1, ..., 255. After the cycle the counter is
  back at 0, and the next write, the 257th, is 0 again.
\<close>

theorem led_cycle_low_nibbles:
  assumes "\<forall>i. st i AND 1 = 0"
  shows "led_history_after st sg mem lit 256 = Some (map (\<lambda>i. of_nat (i mod 16)) [0..<256])
         \<and> pattern_after st sg mem lit 256 = Some 0
         \<and> led_history_after st sg mem lit 257
             = Some (map (\<lambda>i. of_nat (i mod 16)) [0..<256] @ [0])"
proof -
  have run: "\<exists>p s'. main_run st sg mem lit n = Some (p, s')" for n
    using main_run_idle [OF assms, of sg mem lit n] by (metis surj_pair)
  have led: "led_history_after st sg mem lit n
               = Some (map (\<lambda>i. of_nat (i mod 16)) [0..<n])" for n
  proof -
    from run [of n] obtain p s' where r: "main_run st sg mem lit n = Some (p, s')" by blast
    from main_run_led_Some [OF r] r show ?thesis by (simp add: led_history_after_def)
  qed
  have pat: "pattern_after st sg mem lit 256 = Some 0"
  proof -
    from main_run_idle [OF assms, of sg mem lit 256] obtain s1
      where r: "main_run st sg mem lit 256 = Some (main_loop 256 (0, s1))" by blast
    have "fst (main_loop 256 (0, s1)) = 0"
      by (simp only: main_loop_pattern) simp
    with r show ?thesis by (simp add: pattern_after_def)
  qed
  from led [of 256] led [of 257] pat show ?thesis by (simp only: upt_257 simp_thms)
qed

theorem led_cycle_low_nibbles_witness:
  "(\<forall>i. idle_status i AND 1 = 0)
   \<and> led_history_after idle_status False zero_mem 0 256
       = Some (map (\<lambda>i. of_nat (i mod 16)) [0..<256])
   \<and> pattern_after idle_status False zero_mem 0 256 = Some 0
   \<and> led_history_after idle_status False zero_mem 0 257
       = Some (map (\<lambda>i. of_nat (i mod 16)) [0..<256] @ [0])"
  using led_cycle_low_nibbles [OF idle_status_idle, of False zero_mem 0] idle_status_idle
  by (simp only: simp_thms)

text \<open>
  Claim C8. The steady-state loop never writes to \<^verbatim>\<open>UART_TX\<close>: any number of runs of
  the loop body leaves the UART write history as it was, and at every point of the
  loop that \<^verbatim>\<open>main\<close> reaches, the complete UART write history is the greeting bytes
  and nothing more.
\<close>

theorem loop_never_writes_uart:
  "tx_history (snd (main_loop n (p, s))) = tx_history s
   \<and> (\<forall>q s'. main_run st sg mem lit n = Some (q, s') \<longrightarrow>
         tx_history s' = [0x48, 0x65, 0x6C, 0x6C, 0x6F, 0x2C, 0x20, 0x41, 0x72, 0x74, 0x79,
                          0x20, 0x41, 0x37, 0x21, 0x0D, 0x0A])"
proof (intro conjI allI impI)
  show "tx_history (snd (main_loop n (p, s))) = tx_history s"
    by (rule main_loop_tx)
next
  fix q s' assume "main_run st sg mem lit n = Some (q, s')"
  from main_run_Some [OF this] obtain s1
    where s1: "main_startup st sg mem lit = Some s1" and run: "main_loop n (0, s1) = (q, s')"
    by blast
  from main_loop_tx [of n 0 s1] run have "tx_history s' = tx_history s1" by simp
  with main_startup_Some(1) [OF s1]
  show "tx_history s' = [0x48, 0x65, 0x6C, 0x6C, 0x6F, 0x2C, 0x20, 0x41, 0x72, 0x74, 0x79,
                          0x20, 0x41, 0x37, 0x21, 0x0D, 0x0A]"
    by simp
qed

theorem loop_never_writes_uart_witness:
  "tx_history_after idle_status False zero_mem 0 1000
     = Some [0x48, 0x65, 0x6C, 0x6C, 0x6F, 0x2C, 0x20, 0x41, 0x72, 0x74, 0x79,
             0x20, 0x41, 0x37, 0x21, 0x0D, 0x0A]"
proof -
  from main_run_idle [OF idle_status_idle, of False zero_mem 0 1000]
  obtain q s' where r: "main_run idle_status False zero_mem 0 1000 = Some (q, s')"
    by (metis surj_pair)
  from loop_never_writes_uart
         [where n = 1000 and p = 0 and s = init_machine and st = idle_status and sg = False
            and mem = zero_mem and lit = 0] r
  show ?thesis by (simp add: tx_history_after_def)
qed

text \<open>
  Claim C10. Every value that \<^verbatim>\<open>main\<close> has written to the LED register, at whatever
  point of the loop, lies in the range 0..15, and its bits 31 to 4 are zero.
\<close>

theorem led_writes_in_range:
  assumes "main_run st sg mem lit n = Some (p, s')"
  shows "list_all led_in_range (led_history s')"
proof -
  from main_run_Some [OF assms] obtain s1
    where s1: "main_startup st sg mem lit = Some s1" and run: "main_loop n (0, s1) = (p, s')"
    by blast
  from main_loop_led [of n 0 s1] run main_startup_Some(2) [OF s1]
  have "led_history s' = map (\<lambda>i. ucast (of_nat i :: u8) AND 0x0F) [0..<n]" by simp
  then show ?thesis
    by (simp add: list_all_iff led_in_range_def nibble_le nibble_high_zero)
qed

theorem led_writes_in_range_witness:
  "map_option (list_all led_in_range) (led_history_after idle_status False zero_mem 0 300)
     = Some True"
proof -
  from main_run_idle [OF idle_status_idle, of False zero_mem 0 300]
  obtain q s' where r: "main_run idle_status False zero_mem 0 300 = Some (q, s')"
    by (metis surj_pair)
  from led_writes_in_range [OF r] r
  show ?thesis by (simp add: led_history_after_def)
qed

end
